theory Spec2Isabelle
  imports Main "HOL-Library.Char_ord" "HOL-Library.List_Lexorder"
begin

section \<open>The file-selection dialog (class TorrentAddingDialog)\<close>

subsection \<open>Data\<close>

text \<open>
  \<open>Qt.CheckState\<close>, the tri-state value of a tree item's checkbox.
\<close>

datatype check_state = Unchecked | PartiallyChecked | Checked

text \<open>
  Modelled from the spec: the module \<open>models\<close> (\<open>FileInfo\<close>, \<open>FileTreeNode\<close>,
  \<open>DownloadInfo\<close>, \<open>TorrentInfo\<close>) is imported by the source but is not part of it.
  A file tree node is either a \<open>FileInfo\<close> with a \<open>path\<close> and a \<open>length\<close>, or a
  directory: an ordered mapping from names to nodes (read with \<open>node.items()\<close>).
\<close>

record file_info =
  file_path :: "string list"
  file_length :: int

datatype file_tree_node =
    File file_info
  | Directory "(string \<times> file_tree_node) list"

text \<open>
  A \<open>QTreeWidgetItem\<close>: its check state in column 0, its text in column 0 and its
  children. An item object is referred to by its position: the list of child indices
  leading to it from the top-level item, so \<open>item.parent()\<close> is \<open>butlast\<close> of the position
  and the top-level item (whose \<open>parent()\<close> is \<open>None\<close>) has position \<open>[]\<close>.
  Icons and the size text of column 1 are rendering only and are left out.
\<close>

datatype tree_item = TreeItem (check: check_state) (text0: string) (children: "tree_item list")

fun setCheckState :: "tree_item \<Rightarrow> check_state \<Rightarrow> tree_item" where
  "setCheckState (TreeItem s n cs) st = TreeItem st n cs"

text \<open>
  Reading and updating the item at a position. A position that names no item does not
  occur in the source (an item reference always denotes an existing object); the model
  reads \<open>None\<close> there and leaves the tree as it is on an update.
\<close>

fun item_at :: "tree_item \<Rightarrow> nat list \<Rightarrow> tree_item option" where
  "item_at t [] = Some t"
| "item_at (TreeItem s n cs) (i # p) = (if i < length cs then item_at (cs ! i) p else None)"

fun update_at :: "(tree_item \<Rightarrow> tree_item) \<Rightarrow> tree_item \<Rightarrow> nat list \<Rightarrow> tree_item" where
  "update_at f t [] = f t"
| "update_at f (TreeItem s n cs) (i # p) =
     (if i < length cs then TreeItem s n (cs[i := update_at f (cs ! i) p]) else TreeItem s n cs)"

definition check_at :: "tree_item \<Rightarrow> nat list \<Rightarrow> check_state option" where
  "check_at t p = map_option check (item_at t p)"


subsection \<open>Building the tree: \<open>_traverse_file_tree\<close>\<close>

text \<open>
  \<open>_traverse_file_tree(name, node, parent)\<close> creates a checked item under \<open>parent\<close>; for a
  \<open>FileInfo\<close> it appends \<open>(node, item)\<close> to \<open>self._file_items\<close> and returns, for a directory
  it recurses into \<open>node.items()\<close> in order. The model returns the item built and the
  pairs appended; \<open>p\<close> is the position of the item being created, \<open>i\<close> the number of
  children its parent already has.
\<close>

fun traverse_file_tree ::
    "nat list \<Rightarrow> string \<Rightarrow> file_tree_node \<Rightarrow> tree_item \<times> (file_info \<times> nat list) list"
and traverse_items ::
    "nat list \<Rightarrow> nat \<Rightarrow> (string \<times> file_tree_node) list \<Rightarrow> tree_item list \<times> (file_info \<times> nat list) list"
where
  "traverse_file_tree p name (File fi) = (TreeItem Checked name [], [(fi, p)])"
| "traverse_file_tree p name (Directory kids) =
     (case traverse_items p 0 kids of (cs, fs) \<Rightarrow> (TreeItem Checked name cs, fs))"
| "traverse_items p i [] = ([], [])"
| "traverse_items p i ((name, child) # rest) =
     (case traverse_file_tree (p @ [i]) name child of (c, fs) \<Rightarrow>
        (case traverse_items p (Suc i) rest of (cs, fs') \<Rightarrow> (c # cs, fs @ fs')))"

subsection \<open>Downward propagation: \<open>_set_check_state_to_tree\<close>\<close>

text \<open>
  \<open>for i in range(item.childCount())\<close>: each child gets the state, then the call
  recurses into the child. The item itself is not touched.
\<close>

fun set_check_state_to_tree :: "tree_item \<Rightarrow> check_state \<Rightarrow> tree_item"
and set_check_state_to_children :: "tree_item list \<Rightarrow> check_state \<Rightarrow> tree_item list"
where
  "set_check_state_to_tree (TreeItem s n cs) st = TreeItem s n (set_check_state_to_children cs st)"
| "set_check_state_to_children [] st = []"
| "set_check_state_to_children (TreeItem s n cs # rest) st =
     set_check_state_to_tree (setCheckState (TreeItem s n cs) st) st
       # set_check_state_to_children rest st"

subsection \<open>Upward aggregation: the loop of \<open>_update_checkboxes\<close>\<close>

text \<open>
  The inner \<open>for\<close> loop over the children of an ancestor sets three flags; the
  \<open>if\<close>/\<open>elif\<close>/\<open>else\<close> chain after it picks the ancestor's new state.
\<close>

fun children_flags :: "check_state list \<Rightarrow> bool \<times> bool \<times> bool \<Rightarrow> bool \<times> bool \<times> bool" where
  "children_flags [] flags = flags"
| "children_flags (state # rest) (has_checked, has_partially_checked, has_unchecked) =
     (if state = Checked then children_flags rest (True, has_partially_checked, has_unchecked)
      else if state = PartiallyChecked then children_flags rest (has_checked, True, has_unchecked)
      else children_flags rest (has_checked, has_partially_checked, True))"

definition new_state :: "check_state list \<Rightarrow> check_state" where
  "new_state states =
     (case children_flags states (False, False, False) of
        (has_checked_children, has_partially_checked_children, has_unchecked_children) \<Rightarrow>
          if \<not> has_partially_checked_children \<and> \<not> has_unchecked_children then Checked
          else if has_checked_children \<or> has_partially_checked_children then PartiallyChecked
          else Unchecked)"

definition recompute :: "tree_item \<Rightarrow> tree_item" where
  "recompute item = setCheckState item (new_state (map check (children item)))"

text \<open>
  \<open>while True: item = item.parent(); if item is None: break; ...\<close>, with \<open>p\<close> the position
  of the current item.
\<close>

function walk_up :: "tree_item \<Rightarrow> nat list \<Rightarrow> tree_item" where
  "walk_up t p = (if p = [] then t else walk_up (update_at recompute t (butlast p)) (butlast p))"
  by pat_completeness auto
termination
  by (relation "measure (\<lambda>(t, p). length p)") auto

declare walk_up.simps [simp del]




subsection \<open>The dialog and its handlers\<close>

text \<open>
  Modelled from the spec: \<open>DownloadInfo\<close> and \<open>TorrentInfo\<close> of the absent module
  \<open>models\<close>, with the attributes the source reads. \<open>select_files(paths, mode)\<close> is
  recorded as the last selection request made.
\<close>

record download_info =
  suggested_name :: string
  file_tree :: file_tree_node
  files :: "file_info list"
  total_size :: int
  single_file_mode :: bool
  selection :: "(string list list \<times> string) option"

record torrent_info =
  download_info :: download_info
  download_dir :: "string option"
  announce_list :: "string list list"

definition select_files :: "download_info \<Rightarrow> string list list \<Rightarrow> string \<Rightarrow> download_info" where
  "select_files di paths mode = di\<lparr>selection := Some (paths, mode)\<rparr>"

text \<open>
  The text of \<open>_selection_label\<close>: either \<open>'Nothing to download'\<close> or
  \<open>'Selected {} files ({})'\<close> filled with the count and the size (which \<open>humanize_size\<close>
  of the absent module \<open>utils\<close> renders).
\<close>

datatype selection_label = NothingToDownload | SelectedFiles nat int

record dialog =
  torrent :: torrent_info
  path_edit :: string
  file_items :: "(file_info \<times> nat list) list"
  tree :: tree_item
  selection_label :: selection_label
  ok_enabled :: bool
  closed :: bool

text \<open>
  \<open>__init__\<close>: the directory field shows the current value of the class attribute
  \<open>selected_download_dir\<close>, passed as \<open>default_dir\<close> (\<open>_get_directory_browse_widget\<close>), the
  file tree is traversed from
  \<open>download_info.file_tree\<close> for every torrent, and the label starts from
  \<open>len(download_info.files)\<close> and \<open>download_info.total_size\<close>. The buttons of a
  \<open>QDialogButtonBox\<close> start enabled. \<open>sortItems\<close> then reorders the children of every item
  by name. It changes neither the item objects nor their parents, and every loop of the
  source runs over all children of an item, so nothing below depends on the order of
  siblings; the model keeps them in the order of creation.
\<close>

definition init :: "string \<Rightarrow> torrent_info \<Rightarrow> dialog" where
  "init default_dir torrent_info =
     (case traverse_file_tree [] (suggested_name (download_info torrent_info))
             (file_tree (download_info torrent_info)) of
        (root, items) \<Rightarrow>
          \<lparr>torrent = torrent_info,
           path_edit = default_dir,
           file_items = items,
           tree = root,
           selection_label = SelectedFiles (length (files (download_info torrent_info)))
                               (total_size (download_info torrent_info)),
           ok_enabled = True,
           closed = False\<rparr>)"

text \<open>
  \<open>_update_selection_label\<close>: the loop over \<open>self._file_items\<close>, then the Ok button and
  the label.
\<close>

fun count_selected :: "tree_item \<Rightarrow> (file_info \<times> nat list) list \<Rightarrow> nat \<times> int \<Rightarrow> nat \<times> int" where
  "count_selected t [] acc = acc"
| "count_selected t ((node, item) # rest) (selected_file_count, selected_size) =
     (if check_at t item = Some Checked
      then count_selected t rest (selected_file_count + 1, selected_size + file_length node)
      else count_selected t rest (selected_file_count, selected_size))"

definition update_selection_label :: "dialog \<Rightarrow> dialog" where
  "update_selection_label d =
     (case count_selected (tree d) (file_items d) (0, 0) of
        (selected_file_count, selected_size) \<Rightarrow>
          if selected_file_count = 0
          then d\<lparr>ok_enabled := False, selection_label := NothingToDownload\<rparr>
          else d\<lparr>ok_enabled := True,
                 selection_label := SelectedFiles selected_file_count selected_size\<rparr>)"

text \<open>
  \<open>_update_checkboxes(item, column)\<close>, the slot of \<open>itemClicked\<close>.
\<close>

definition update_checkboxes :: "dialog \<Rightarrow> nat list \<Rightarrow> nat \<Rightarrow> dialog" where
  "update_checkboxes d item column =
     (if column \<noteq> 0 then d
      else update_selection_label
             (d\<lparr>tree := walk_up
                        (update_at (\<lambda>it. set_check_state_to_tree it (check it)) (tree d) item)
                        item\<rparr>))"

text \<open>
  What the toolkit does with the user's input on the tree, outside the source. A mouse
  click on the checkbox of an item flips it (\<open>Checked\<close> becomes \<open>Unchecked\<close>, anything else
  becomes \<open>Checked\<close>) and then emits \<open>itemClicked(item, 0)\<close>; a click elsewhere on the row
  emits \<open>itemClicked(item, column)\<close> and changes nothing. The space key on the current
  item flips its checkbox in the same way but emits no \<open>itemClicked\<close> (only \<open>itemChanged\<close>,
  which the source connects to nothing), so no slot runs.
\<close>

datatype tree_input = CheckboxClick "nat list" | RowClick "nat list" nat | SpaceKey "nat list"

definition qt_toggle :: "tree_item \<Rightarrow> tree_item" where
  "qt_toggle it = setCheckState it (if check it = Checked then Unchecked else Checked)"

fun user_input :: "dialog \<Rightarrow> tree_input \<Rightarrow> dialog" where
  "user_input d (CheckboxClick item) =
     update_checkboxes (d\<lparr>tree := update_at qt_toggle (tree d) item\<rparr>) item 0"
| "user_input d (RowClick item column) = update_checkboxes d item column"
| "user_input d (SpaceKey item) = d\<lparr>tree := update_at qt_toggle (tree d) item\<rparr>"

fun is_click :: "tree_input \<Rightarrow> bool" where
  "is_click (CheckboxClick item) = True"
| "is_click (RowClick item column) = True"
| "is_click (SpaceKey item) = False"

fun runs_slot :: "tree_input \<Rightarrow> bool" where
  "runs_slot (CheckboxClick item) = True"
| "runs_slot (RowClick item column) = (column = 0)"
| "runs_slot (SpaceKey item) = False"

text \<open>
  The files of a tree whose mirrored item is \<open>Checked\<close>, read off the file tree and the
  item tree side by side: what the aggregates are about.
\<close>

fun checked_files :: "file_tree_node \<Rightarrow> tree_item \<Rightarrow> file_info list"
and checked_files_list :: "(string \<times> file_tree_node) list \<Rightarrow> tree_item list \<Rightarrow> file_info list"
where
  "checked_files (File fi) it = (if check it = Checked then [fi] else [])"
| "checked_files (Directory kids) it = checked_files_list kids (children it)"
| "checked_files_list [] cs = []"
| "checked_files_list (kid # kids) [] = []"
| "checked_files_list ((name, node) # kids) (c # cs) = checked_files node c @ checked_files_list kids cs"

definition label_for :: "file_info list \<Rightarrow> selection_label" where
  "label_for fs =
     (if length fs = 0 then NothingToDownload
      else SelectedFiles (length fs) (sum_list (map file_length fs)))"

text \<open>
  The item tree has the shape of the file tree: one child item per directory entry, in
  order.
\<close>

fun mirrors :: "file_tree_node \<Rightarrow> tree_item \<Rightarrow> bool"
and mirrors_list :: "(string \<times> file_tree_node) list \<Rightarrow> tree_item list \<Rightarrow> bool"
where
  "mirrors (File fi) it = True"
| "mirrors (Directory kids) it = mirrors_list kids (children it)"
| "mirrors_list [] cs = (cs = [])"
| "mirrors_list (kid # kids) [] = False"
| "mirrors_list ((name, node) # kids) (c # cs) = (mirrors node c \<and> mirrors_list kids cs)"

text \<open>
  \<open>submit_torrent\<close>, the slot of the Ok button: the download directory is taken from the
  class attribute, the paths of the checked file items are collected, and
  \<open>select_files(file_paths, 'whitelist')\<close> is called unless the torrent is in single-file
  mode. The second component is the torrent handed to \<open>control.add\<close> through
  \<open>call_soon_threadsafe\<close>. A disabled button emits no \<open>clicked\<close> signal.
\<close>

definition submit_torrent :: "string \<Rightarrow> dialog \<Rightarrow> dialog \<times> torrent_info" where
  "submit_torrent default_dir d =
     (let ti = (torrent d)\<lparr>download_dir := Some default_dir\<rparr>;
          file_paths = map (\<lambda>(node, item). file_path node)
                         (filter (\<lambda>(node, item). check_at (tree d) item = Some Checked) (file_items d));
          ti' = (if \<not> single_file_mode (download_info ti)
                 then ti\<lparr>download_info := select_files (download_info ti) file_paths ''whitelist''\<rparr>
                 else ti)
      in (d\<lparr>torrent := ti', closed := True\<rparr>, ti'))"

definition ok_clicked :: "string \<Rightarrow> dialog \<Rightarrow> (dialog \<times> torrent_info) option" where
  "ok_clicked default_dir d = (if ok_enabled d then Some (submit_torrent default_dir d) else None)"

text \<open>
  \<open>_browse\<close>: \<open>new_download_dir\<close> is what \<open>QFileDialog.getExistingDirectory\<close> returned (empty
  when the user cancelled). The first component is the class attribute
  \<open>TorrentAddingDialog.selected_download_dir\<close>, shared by all dialogs.
\<close>

definition browse :: "string \<Rightarrow> dialog \<Rightarrow> string \<Rightarrow> string \<times> dialog" where
  "browse default_dir d new_download_dir =
     (if new_download_dir = [] then (default_dir, d)
      else (new_download_dir, d\<lparr>path_edit := new_download_dir\<rparr>))"

text \<open>
  The process as far as add dialogs go: the class attribute (initially \<open>os.getcwd()\<close>),
  the dialogs created so far, and the torrents handed to the engine.
\<close>

record gui =
  selected_download_dir :: string
  dialogs :: "dialog list"
  submitted :: "torrent_info list"

datatype gui_event =
    OpenDialog torrent_info
  | BrowseDir nat string
  | TreeInput nat tree_input
  | OkClick nat

definition start_gui :: "string \<Rightarrow> gui" where
  "start_gui cwd = \<lparr>selected_download_dir = cwd, dialogs = [], submitted = []\<rparr>"

fun gui_step :: "gui \<Rightarrow> gui_event \<Rightarrow> gui" where
  "gui_step g (OpenDialog ti) = g\<lparr>dialogs := dialogs g @ [init (selected_download_dir g) ti]\<rparr>"
| "gui_step g (BrowseDir i new_download_dir) =
     (if i < length (dialogs g)
      then (case browse (selected_download_dir g) (dialogs g ! i) new_download_dir of
              (dir, d) \<Rightarrow> g\<lparr>selected_download_dir := dir, dialogs := (dialogs g)[i := d]\<rparr>)
      else g)"
| "gui_step g (TreeInput i c) =
     (if i < length (dialogs g) then g\<lparr>dialogs := (dialogs g)[i := user_input (dialogs g ! i) c]\<rparr>
      else g)"
| "gui_step g (OkClick i) =
     (if i < length (dialogs g)
      then (case ok_clicked (selected_download_dir g) (dialogs g ! i) of
              None \<Rightarrow> g
            | Some (d, ti) \<Rightarrow> g\<lparr>dialogs := (dialogs g)[i := d], submitted := submitted g @ [ti]\<rparr>)
      else g)"

fun sets_directory :: "gui_event \<Rightarrow> bool" where
  "sets_directory (BrowseDir i new_download_dir) = (new_download_dir \<noteq> [])"
| "sets_directory e = False"

section \<open>The torrent list of the main window (class MainWindow)\<close>

datatype py_error = KeyError | AttributeError | ValueError | RuntimeError | OtherError

text \<open>
  Modelled from the spec: \<open>TorrentState\<close> of the absent module \<open>models\<close>, the snapshot of a
  torrent, with the attributes the list reads: \<open>info_hash\<close>, \<open>suggested_name\<close> (here
  \<open>state_name\<close>, the plain name being taken by \<open>DownloadInfo\<close>) and \<open>paused\<close>.
\<close>

record torrent_state =
  info_hash :: string
  state_name :: string
  paused :: bool

text \<open>
  A \<open>QListWidgetItem\<close> in the \<open>QListWidget\<close>: the object (a reference drawn from a counter
  when \<open>QListWidgetItem()\<close> is called), its \<open>Qt.UserRole\<close> data and the state of the
  \<open>TorrentWidgetItem\<close> the list shows for it. The list widget owns the item widgets:
  \<open>itemWidget\<close> of an item that is not in the list is \<open>None\<close>, \<open>row\<close> of it is \<open>-1\<close> and
  \<open>takeItem(-1)\<close> takes nothing.
\<close>

record list_item =
  item_ref :: nat
  item_data :: string
  widget_state :: torrent_state

record main_window =
  list_widget :: "list_item list"
  torrent_to_item :: "string \<rightharpoonup> nat"
  next_ref :: nat

definition new_main_window :: main_window where
  "new_main_window = \<lparr>list_widget = [], torrent_to_item = Map.empty, next_ref = 0\<rparr>"

text \<open>
  The loop of \<open>_add_torrent_item\<close> that counts \<open>items_upper\<close>: it stops at the first item
  whose name is greater than the new name.
\<close>

fun count_items_upper :: "list_item list \<Rightarrow> string \<Rightarrow> nat \<Rightarrow> nat" where
  "count_items_upper [] name items_upper = items_upper"
| "count_items_upper (prev_item # rest) name items_upper =
     (if state_name (widget_state prev_item) > name then items_upper
      else count_items_upper rest name (items_upper + 1))"

definition insertItem :: "list_item list \<Rightarrow> nat \<Rightarrow> list_item \<Rightarrow> list_item list" where
  "insertItem items i item = take i items @ item # drop i items"

definition add_torrent_item :: "main_window \<Rightarrow> torrent_state \<Rightarrow> main_window" where
  "add_torrent_item w state =
     (let item = \<lparr>item_ref = next_ref w, item_data = info_hash state, widget_state = state\<rparr>;
          items_upper = count_items_upper (list_widget w) (state_name state) 0
      in w\<lparr>list_widget := insertItem (list_widget w) items_upper item,
           torrent_to_item := (torrent_to_item w)(info_hash state \<mapsto> item_ref item),
           next_ref := Suc (next_ref w)\<rparr>)"

text \<open>
  \<open>_update_torrent_item\<close>: \<open>self._torrent_to_item[state.info_hash]\<close> raises \<open>KeyError\<close> for an
  unknown hash; assigning to \<open>widget.state\<close> raises \<open>AttributeError\<close> when the item has no
  widget. The toolbar update that follows touches no part of the list.
\<close>

definition set_widget_state :: "nat \<Rightarrow> torrent_state \<Rightarrow> list_item \<Rightarrow> list_item" where
  "set_widget_state r state it = (if item_ref it = r then it\<lparr>widget_state := state\<rparr> else it)"

definition update_torrent_item :: "main_window \<Rightarrow> torrent_state \<Rightarrow> py_error + main_window" where
  "update_torrent_item w state =
     (case torrent_to_item w (info_hash state) of
        None \<Rightarrow> Inl KeyError
      | Some item \<Rightarrow>
          if item \<notin> set (map item_ref (list_widget w)) then Inl AttributeError
          else Inr (w\<lparr>list_widget := map (set_widget_state item state) (list_widget w)\<rparr>))"

text \<open>
  \<open>_remove_torrent_item\<close>: \<open>takeItem(row(item))\<close>, then \<open>del self._torrent_to_item[info_hash]\<close>.
\<close>

fun row :: "list_item list \<Rightarrow> nat \<Rightarrow> int" where
  "row [] item = - 1"
| "row (it # rest) item =
     (if item_ref it = item then 0
      else (let k = row rest item in if k < 0 then - 1 else k + 1))"

definition takeItem :: "list_item list \<Rightarrow> int \<Rightarrow> list_item list" where
  "takeItem items i =
     (if 0 \<le> i \<and> i < int (length items) then take (nat i) items @ drop (Suc (nat i)) items
      else items)"

definition remove_torrent_item :: "main_window \<Rightarrow> string \<Rightarrow> py_error + main_window" where
  "remove_torrent_item w h =
     (case torrent_to_item w h of
        None \<Rightarrow> Inl KeyError
      | Some item \<Rightarrow>
          Inr (w\<lparr>list_widget := takeItem (list_widget w) (row (list_widget w) item),
                 torrent_to_item := (torrent_to_item w)(h := None)\<rparr>))"

text \<open>
  The three slots as operations, and a run of them that stops at the first exception.
\<close>

datatype registry_op = AddTorrent torrent_state | UpdateTorrent torrent_state | RemoveTorrent string

fun registry_step :: "main_window \<Rightarrow> registry_op \<Rightarrow> py_error + main_window" where
  "registry_step w (AddTorrent state) = Inr (add_torrent_item w state)"
| "registry_step w (UpdateTorrent state) = update_torrent_item w state"
| "registry_step w (RemoveTorrent h) = remove_torrent_item w h"

fun registry_run :: "main_window \<Rightarrow> registry_op list \<Rightarrow> py_error + main_window" where
  "registry_run w [] = Inr w"
| "registry_run w (op # ops) =
     (case registry_step w op of Inl e \<Rightarrow> Inl e | Inr w' \<Rightarrow> registry_run w' ops)"

definition displayed_names :: "main_window \<Rightarrow> string list" where
  "displayed_names w = map (\<lambda>it. state_name (widget_state it)) (list_widget w)"

definition displayed_ids :: "main_window \<Rightarrow> string set" where
  "displayed_ids w = set (map item_data (list_widget w))"

text \<open>
  What the engine's events look like: an added torrent is one the window does not know
  yet, and a changed snapshot keeps the name of the entry it replaces.
\<close>

fun admissible :: "main_window \<Rightarrow> registry_op \<Rightarrow> bool" where
  "admissible w (AddTorrent state) = (torrent_to_item w (info_hash state) = None)"
| "admissible w (UpdateTorrent state) =
     list_all (\<lambda>it. item_data it = info_hash state \<longrightarrow> state_name (widget_state it) = state_name state)
       (list_widget w)"
| "admissible w (RemoveTorrent h) = True"

fun admissible_run :: "main_window \<Rightarrow> registry_op list \<Rightarrow> bool" where
  "admissible_run w [] = True"
| "admissible_run w (op # ops) =
     (admissible w op \<and>
      (case registry_step w op of Inl e \<Rightarrow> True | Inr w' \<Rightarrow> admissible_run w' ops))"

section \<open>Control actions (\<open>MainWindow._invoke_control_action\<close>)\<close>

text \<open>
  Modelled from the spec: the engine (\<open>ControlManager\<close> of the absent module
  \<open>control_manager\<close>) and its events. The engine knows a set of torrents by id. A command
  \<open>pause\<close>, \<open>resume\<close> or \<open>remove\<close> for an unknown id fails with \<open>NotFound\<close> and emits no
  event; the source handles it with \<open>except ValueError\<close>, so \<open>NotFound\<close> is a
  \<open>ValueError\<close>. What a command does for a known id is the engine's own and stays a
  parameter.
\<close>

datatype event = TorrentAdded torrent_state | TorrentChanged torrent_state | TorrentRemoved string

record control_manager =
  torrents :: "string \<rightharpoonup> torrent_state"

type_synonym action = "string \<Rightarrow> control_manager \<Rightarrow> py_error option \<times> control_manager \<times> event list"

definition control_command :: "(string \<Rightarrow> control_manager \<Rightarrow> control_manager \<times> event list) \<Rightarrow> action" where
  "control_command on_known hash cm =
     (if torrents cm hash = None then (Some ValueError, cm, [])
      else (case on_known hash cm of (cm', evs) \<Rightarrow> (None, cm', evs)))"

text \<open>
  \<open>_invoke_control_action(action, info_hash)\<close> (\<open>hash\<close> below): the call (and the \<open>await\<close> of its result)
  inside \<open>try\<close>, with \<open>except ValueError: pass\<close>. The result is the exception that leaves
  the coroutine, if any, the engine afterwards and the events emitted meanwhile.
\<close>

definition invoke_control_action :: "action \<Rightarrow> string \<Rightarrow> control_manager \<Rightarrow> py_error option \<times> control_manager \<times> event list" where
  "invoke_control_action action hash cm =
     (case action hash cm of
        (Some ValueError, cm', evs) \<Rightarrow> (None, cm', evs)
      | (raised, cm', evs) \<Rightarrow> (raised, cm', evs))"

text \<open>
  \<open>_control_action_triggered(action)\<close>: one coroutine per selected item is handed to the
  loop with \<open>run_coroutine_threadsafe\<close>; the futures are dropped, so whatever a coroutine
  raises stays in its future. The first component is what the caller sees raised.
\<close>

fun control_action_triggered :: "action \<Rightarrow> string list \<Rightarrow> control_manager \<Rightarrow> py_error option \<times> control_manager \<times> event list" where
  "control_action_triggered action [] cm = (None, cm, [])"
| "control_action_triggered action (hash # selected) cm =
     (case invoke_control_action action hash cm of
        (in_future, cm', evs) \<Rightarrow>
          (case control_action_triggered action selected cm' of
             (raised, cm'', evs') \<Rightarrow> (raised, cm'', evs @ evs')))"

section \<open>The background thread (class ControlManagerThread)\<close>

text \<open>
  What the thread does is recorded as a list of effects. The outside world decides
  whether the state file exists and whether the engine's \<open>start\<close>, \<open>load\<close> (or the
  \<open>open\<close> before it) and \<open>dump\<close> raise.
\<close>

datatype effect =
    NewEventLoop | ControlStart | OpenStateFileRead | ControlLoad | RunForever
  | ControlStop | LoopStop | OpenStateFileWrite | ControlDump | LoopClose | ThreadJoin

record world =
  state_file_exists :: bool
  start_error :: "py_error option"
  load_error :: "py_error option"
  dump_error :: "py_error option"

datatype phase = Created | Running | Finished | Failed py_error

record control_manager_thread =
  stopping :: bool
  phase :: phase
  effects :: "effect list"

definition new_thread :: control_manager_thread where
  "new_thread = \<lparr>stopping = False, phase = Created, effects = []\<rparr>"

definition did :: "effect list \<Rightarrow> control_manager_thread \<Rightarrow> control_manager_thread" where
  "did es t = t\<lparr>effects := effects t @ es\<rparr>"

text \<open>
  \<open>_load_state\<close>: nothing happens without the file; with it, the file is opened and given
  to \<open>control.load\<close>, and nothing catches what they raise.
\<close>

definition load_state :: "world \<Rightarrow> control_manager_thread \<Rightarrow> py_error option \<times> control_manager_thread" where
  "load_state wd t =
     (if state_file_exists wd then (load_error wd, did [OpenStateFileRead, ControlLoad] t)
      else (None, t))"

definition save_state :: "world \<Rightarrow> control_manager_thread \<Rightarrow> py_error option \<times> control_manager_thread" where
  "save_state wd t = (dump_error wd, did [OpenStateFileWrite, ControlDump] t)"

text \<open>
  \<open>run\<close> up to the point where it blocks in \<open>run_forever\<close>. An exception of
  \<open>control.start()\<close> or \<open>_load_state()\<close> is outside the \<open>try\<close>: it leaves \<open>run\<close> through
  \<open>closing(self._loop)\<close>, which closes the loop.
\<close>

definition run_start :: "world \<Rightarrow> control_manager_thread \<Rightarrow> control_manager_thread" where
  "run_start wd t =
     (let t1 = did [NewEventLoop, ControlStart] t in
      case start_error wd of
        Some e \<Rightarrow> (did [LoopClose] t1)\<lparr>phase := Failed e\<rparr>
      | None \<Rightarrow>
          (case load_state wd t1 of
             (Some e, t2) \<Rightarrow> (did [LoopClose] t2)\<lparr>phase := Failed e\<rparr>
           | (None, t2) \<Rightarrow> (did [RunForever] t2)\<lparr>phase := Running\<rparr>))"

text \<open>
  The rest of \<open>run\<close>, once \<open>loop.stop()\<close> has made \<open>run_forever\<close> return: the \<open>finally\<close>
  clause saves the state, then the loop is closed.
\<close>

definition run_finish :: "world \<Rightarrow> control_manager_thread \<Rightarrow> control_manager_thread" where
  "run_finish wd t =
     (case save_state wd t of
        (Some e, t1) \<Rightarrow> (did [LoopClose] t1)\<lparr>phase := Failed e\<rparr>
      | (None, t1) \<Rightarrow> (did [LoopClose] t1)\<lparr>phase := Finished\<rparr>)"

text \<open>
  \<open>stop\<close>: the guard on \<open>_stopping\<close>, then \<open>control.stop()\<close> is scheduled on the loop, its
  completion stops the loop (so \<open>run\<close> finishes), and \<open>wait()\<close> joins the thread.
  \<open>run_coroutine_threadsafe\<close> raises \<open>AttributeError\<close> while \<open>self._loop\<close> is still \<open>None\<close>
  and \<open>RuntimeError\<close> on a closed loop. The first component is what \<open>stop\<close> raises.
\<close>

definition stop :: "world \<Rightarrow> control_manager_thread \<Rightarrow> py_error option \<times> control_manager_thread" where
  "stop wd t =
     (if stopping t then (None, t)
      else
        (let t1 = t\<lparr>stopping := True\<rparr> in
         case phase t1 of
           Created \<Rightarrow> (Some AttributeError, t1)
         | Running \<Rightarrow> (None, did [ThreadJoin] (run_finish wd (did [ControlStop, LoopStop] t1)))
         | Finished \<Rightarrow> (Some RuntimeError, t1)
         | Failed e \<Rightarrow> (Some RuntimeError, t1)))"

section \<open>Well-formed dialogs\<close>

text \<open>
  What \<open>__init__\<close> establishes and no handler changes: the item tree has the shape of the
  torrent's file tree, and \<open>_file_items\<close> is what the traversal appended.
\<close>

definition dialog_ok :: "dialog \<Rightarrow> bool" where
  "dialog_ok d =
     (mirrors (file_tree (download_info (torrent d))) (tree d) \<and>
      file_items d =
        snd (traverse_file_tree [] (suggested_name (download_info (torrent d)))
               (file_tree (download_info (torrent d)))))"

section \<open>Well-formed torrent lists\<close>

text \<open>
  What the three slots keep true of the main window when they are fed admissible
  operations: names ascending, item objects distinct and older than the counter, and the
  dictionary holding exactly the items of the list under their data.
\<close>

definition registry_inv :: "main_window \<Rightarrow> bool" where
  "registry_inv w =
     (sorted (displayed_names w) \<and>
      distinct (map item_ref (list_widget w)) \<and>
      (\<forall>it \<in> set (list_widget w).
          item_ref it < next_ref w \<and> torrent_to_item w (item_data it) = Some (item_ref it)) \<and>
      (\<forall>h r. torrent_to_item w h = Some r \<longrightarrow>
          (\<exists>it \<in> set (list_widget w). item_ref it = r \<and> item_data it = h)))"

section \<open>A concrete torrent\<close>

text \<open>
  The tree \<open>a/x.txt\<close> (100 bytes), \<open>a/y.txt\<close> (200), \<open>b/z.txt\<close> (50), and a torrent in
  single-file mode whose file tree is the one file.
\<close>

definition example_tree :: file_tree_node where
  "example_tree =
     Directory
       [(''a'', Directory
                 [(''x.txt'', File \<lparr>file_path = [''a'', ''x.txt''], file_length = 100\<rparr>),
                  (''y.txt'', File \<lparr>file_path = [''a'', ''y.txt''], file_length = 200\<rparr>)]),
        (''b'', Directory
                 [(''z.txt'', File \<lparr>file_path = [''b'', ''z.txt''], file_length = 50\<rparr>)])]"

definition example_torrent :: torrent_info where
  "example_torrent =
     \<lparr>download_info =
        \<lparr>suggested_name = ''t'',
         file_tree = example_tree,
         files = [\<lparr>file_path = [''a'', ''x.txt''], file_length = 100\<rparr>,
                  \<lparr>file_path = [''a'', ''y.txt''], file_length = 200\<rparr>,
                  \<lparr>file_path = [''b'', ''z.txt''], file_length = 50\<rparr>],
         total_size = 350,
         single_file_mode = False,
         selection = None\<rparr>,
      download_dir = None,
      announce_list = []\<rparr>"

definition single_file_torrent :: torrent_info where
  "single_file_torrent =
     \<lparr>download_info =
        \<lparr>suggested_name = ''f.iso'',
         file_tree = File \<lparr>file_path = [], file_length = 700\<rparr>,
         files = [\<lparr>file_path = [], file_length = 700\<rparr>],
         total_size = 700,
         single_file_mode = True,
         selection = None\<rparr>,
      download_dir = None,
      announce_list = []\<rparr>"

text \<open>
  Snapshots of two torrents, and a later snapshot of the first one.
\<close>

definition state_a :: torrent_state where
  "state_a = \<lparr>info_hash = ''h1'', state_name = ''a'', paused = False\<rparr>"

definition state_b :: torrent_state where
  "state_b = \<lparr>info_hash = ''h2'', state_name = ''b'', paused = False\<rparr>"

definition state_a_paused :: torrent_state where
  "state_a_paused = \<lparr>info_hash = ''h1'', state_name = ''a'', paused = True\<rparr>"

text \<open>
  Modelled from the spec: what \<open>remove\<close> and \<open>pause\<close> of the absent engine do for a torrent
  they know: the torrent is dropped and a removed event emitted, or it is marked paused
  and a changed event emitted.
\<close>

definition remove_known :: "string \<Rightarrow> control_manager \<Rightarrow> control_manager \<times> event list" where
  "remove_known hash cm = (cm\<lparr>torrents := (torrents cm)(hash := None)\<rparr>, [TorrentRemoved hash])"

definition pause_known :: "string \<Rightarrow> control_manager \<Rightarrow> control_manager \<times> event list" where
  "pause_known hash cm =
     (case torrents cm hash of
        None \<Rightarrow> (cm, [])
      | Some st \<Rightarrow> (cm\<lparr>torrents := (torrents cm)(hash \<mapsto> st\<lparr>paused := True\<rparr>)\<rparr>,
                    [TorrentChanged (st\<lparr>paused := True\<rparr>)]))"

definition example_engine :: control_manager where
  "example_engine = \<lparr>torrents = [''h1'' \<mapsto> state_a]\<rparr>"

text \<open>
  Two worlds for the background thread: one without a state file, and one whose state
  file makes \<open>control.load\<close> raise.
\<close>

definition cold_world :: world where
  "cold_world = \<lparr>state_file_exists = False, start_error = None, load_error = None, dump_error = None\<rparr>"

definition corrupt_world :: world where
  "corrupt_world =
     \<lparr>state_file_exists = True, start_error = None, load_error = Some OtherError, dump_error = None\<rparr>"


section \<open>Properties of the selection tree\<close>

subsection \<open>Positions\<close>


lemma item_at_append:
  "item_at t (p @ r) = (case item_at t p of None \<Rightarrow> None | Some it \<Rightarrow> item_at it r)"
  by (induction t p rule: item_at.induct) auto

lemma item_at_Cons:
  "item_at t (i # r) = (if i < length (children t) then item_at (children t ! i) r else None)"
  by (cases t) simp


lemma children_recompute: "children (recompute x) = children x"
  by (cases x) (simp add: recompute_def)






lemma tree_update_selection_label [simp]: "tree (update_selection_label d) = tree d"
  by (simp add: update_selection_label_def split: prod.splits)



subsection \<open>Downward propagation\<close>



subsection \<open>Upward aggregation\<close>














subsection \<open>The aggregates and the Ok button\<close>

lemma count_selected_append:
  "count_selected t (fs @ fs') acc = count_selected t fs' (count_selected t fs acc)"
proof (induction fs arbitrary: acc)
  case Nil
  show ?case by simp
next
  case (Cons f fs)
  obtain node item where f: "f = (node, item)" by (cases f)
  obtain c s where acc: "acc = (c, s)" by (cases acc)
  show ?case by (simp add: f acc Cons.IH)
qed

lemma mirrors_traverse:
  "mirrors ft (fst (traverse_file_tree p name ft))"
  "mirrors_list kids (fst (traverse_items p i kids))"
  by (induction p name ft and p i kids rule: traverse_file_tree_traverse_items.induct)
     (auto split: prod.splits)

lemma drop_eq_ConsD:
  "drop i xs = y # ys \<Longrightarrow> i < length xs \<and> xs ! i = y \<and> drop (Suc i) xs = ys"
  by (metis Cons_nth_drop_Suc drop_all list.distinct(1) list.inject not_le)

lemma snd_traverse_Directory:
  "snd (traverse_file_tree p name (Directory kids)) = snd (traverse_items p 0 kids)"
  by (simp split: prod.splits)

lemma fst_traverse_Directory:
  "fst (traverse_file_tree p name (Directory kids)) = TreeItem Checked name (fst (traverse_items p 0 kids))"
  by (simp split: prod.splits)

lemma count_selected_traverse:
  "item_at T p = Some it \<Longrightarrow> mirrors ft it \<Longrightarrow>
   count_selected T (snd (traverse_file_tree p name ft)) (c, s) =
     (c + length (checked_files ft it), s + sum_list (map file_length (checked_files ft it)))"
  "item_at T p = Some par \<Longrightarrow> drop i (children par) = cs \<Longrightarrow> mirrors_list kids cs \<Longrightarrow>
   count_selected T (snd (traverse_items p i kids)) (c, s) =
     (c + length (checked_files_list kids cs), s + sum_list (map file_length (checked_files_list kids cs)))"
proof (induction p name ft and p i kids arbitrary: it c s and par cs c s
        rule: traverse_file_tree_traverse_items.induct)
  case (1 p name fi)
  then show ?case by (simp add: check_at_def)
next
  case (2 p name kids)
  have "drop 0 (children it) = children it" by simp
  moreover from 2(3) have "mirrors_list kids (children it)" by simp
  ultimately show ?case
    using 2(1)[OF 2(2), of "children it" c s]
    by (simp only: snd_traverse_Directory checked_files.simps)
next
  case (3 p i)
  then show ?case by simp
next
  case (4 p i name child rest)
  from 4(5) obtain c0 cs' where cs: "cs = c0 # cs'" and m0: "mirrors child c0" and ms: "mirrors_list rest cs'"
    by (cases cs) auto
  from 4(4) cs have dr: "drop i (children par) = c0 # cs'" by simp
  have d: "i < length (children par)" "children par ! i = c0" "drop (Suc i) (children par) = cs'"
    using drop_eq_ConsD[OF dr] by simp_all
  have at: "item_at T (p @ [i]) = Some c0"
    using 4(3) d by (simp add: item_at_append item_at_Cons)
  obtain it0 fs0 where t0: "traverse_file_tree (p @ [i]) name child = (it0, fs0)"
    by (cases "traverse_file_tree (p @ [i]) name child")
  obtain its1 fs1 where t1: "traverse_items p (Suc i) rest = (its1, fs1)"
    by (cases "traverse_items p (Suc i) rest")
  have a: "count_selected T fs0 (c, s) =
     (c + length (checked_files child c0), s + sum_list (map file_length (checked_files child c0)))"
    using 4(1)[OF at m0, of c s] t0 by simp
  have b: "\<And>c s. count_selected T fs1 (c, s) =
     (c + length (checked_files_list rest cs'), s + sum_list (map file_length (checked_files_list rest cs')))"
    using 4(2)[OF t0[symmetric] 4(3) d(3) ms] t1 by simp
  show ?case
    by (simp add: t0 t1 cs count_selected_append a b)
qed


lemma mirrors_children: "children a = children b \<Longrightarrow> mirrors ft a = mirrors ft b"
  by (cases ft) simp_all

lemma children_setCheckState [simp]: "children (setCheckState it st) = children it"
  by (cases it) simp

lemma mirrors_set_check:
  "mirrors ft (set_check_state_to_tree it st) = mirrors ft it"
  "mirrors_list kids (set_check_state_to_children cs st) = mirrors_list kids cs"
proof (induction it st and cs st arbitrary: ft and kids
        rule: set_check_state_to_tree_set_check_state_to_children.induct)
  case (1 s n cs st)
  show ?case by (cases ft) (simp_all add: 1)
next
  case (2 st)
  show ?case by simp
next
  case (3 s n cs rest st)
  show ?case
  proof (cases kids)
    case Nil
    then show ?thesis by simp
  next
    case (Cons kid kids')
    obtain name node where kid: "kid = (name, node)" by (cases kid)
    have "mirrors node (set_check_state_to_tree (setCheckState (TreeItem s n cs) st) st)
            = mirrors node (TreeItem s n cs)"
      using 3(1)[of node] mirrors_children[of "TreeItem st n cs" "TreeItem s n cs" node] by simp
    then show ?thesis by (simp add: Cons kid 3(2))
  qed
qed

lemma mirrors_list_update:
  "i < length cs \<Longrightarrow> (\<forall>ft. mirrors ft c' = mirrors ft (cs ! i)) \<Longrightarrow>
   mirrors_list kids (cs[i := c']) = mirrors_list kids cs"
proof (induction cs arbitrary: i kids)
  case Nil
  then show ?case by simp
next
  case (Cons c cs)
  show ?case
  proof (cases kids)
    case Nil
    then show ?thesis by (cases i) simp_all
  next
    case (Cons kid kids')
    obtain name node where kid: "kid = (name, node)" by (cases kid)
    show ?thesis
    proof (cases i)
      case 0
      with Cons.prems show ?thesis by (simp add: Cons kid)
    next
      case (Suc j)
      with Cons.prems Cons.IH[of j kids'] show ?thesis by (simp add: Cons kid)
    qed
  qed
qed

lemma mirrors_update_at:
  "(\<forall>ft x. mirrors ft (f x) = mirrors ft x) \<Longrightarrow> mirrors ft (update_at f t p) = mirrors ft t"
proof (induction f t p arbitrary: ft rule: update_at.induct)
  case (1 f t)
  then show ?case by simp
next
  case (2 f s n cs i p)
  show ?case
  proof (cases "i < length cs")
    case True
    have "\<forall>ft. mirrors ft (update_at f (cs ! i) p) = mirrors ft (cs ! i)"
      using 2(1)[OF True 2(2)] by simp
    from mirrors_list_update[OF True this] show ?thesis
      using True by (cases ft) simp_all
  next
    case False
    then show ?thesis by simp
  qed
qed

lemma mirrors_recompute: "mirrors ft (recompute x) = mirrors ft x"
  by (rule mirrors_children) (rule children_recompute)

lemma mirrors_qt_toggle: "mirrors ft (qt_toggle x) = mirrors ft x"
  by (rule mirrors_children) (simp add: qt_toggle_def)

lemma mirrors_walk_up: "mirrors ft (walk_up t p) = mirrors ft t"
proof (induction t p rule: walk_up.induct)
  case (1 t p)
  show ?case
  proof (cases "p = []")
    case True
    then show ?thesis by (simp add: walk_up.simps)
  next
    case False
    have "walk_up t p = walk_up (update_at recompute t (butlast p)) (butlast p)"
      using False by (subst walk_up.simps) simp
    then show ?thesis
      using 1[OF False] by (simp add: mirrors_update_at mirrors_recompute)
  qed
qed

lemma update_selection_label_fields [simp]:
  "torrent (update_selection_label d) = torrent d"
  "file_items (update_selection_label d) = file_items d"
  by (simp_all add: update_selection_label_def split: prod.splits)

lemma dialog_ok_init: "dialog_ok (init dir ti)"
  by (simp add: dialog_ok_def init_def case_prod_beta mirrors_traverse(1))

lemma dialog_ok_update_selection_label: "dialog_ok (update_selection_label d) = dialog_ok d"
  by (simp add: dialog_ok_def)

lemma dialog_ok_update_checkboxes: "dialog_ok d \<Longrightarrow> dialog_ok (update_checkboxes d p column)"
  by (simp add: update_checkboxes_def dialog_ok_update_selection_label)
     (simp add: dialog_ok_def mirrors_walk_up mirrors_update_at mirrors_set_check)

lemma dialog_ok_user_input: "dialog_ok d \<Longrightarrow> dialog_ok (user_input d c)"
proof (cases c)
  case (CheckboxClick item)
  assume "dialog_ok d"
  then have "dialog_ok (d\<lparr>tree := update_at qt_toggle (tree d) item\<rparr>)"
    by (simp add: dialog_ok_def mirrors_update_at mirrors_qt_toggle)
  then show ?thesis by (simp add: CheckboxClick dialog_ok_update_checkboxes)
next
  case (RowClick item column)
  assume "dialog_ok d"
  then show ?thesis by (simp add: RowClick dialog_ok_update_checkboxes)
next
  case (SpaceKey item)
  assume "dialog_ok d"
  then show ?thesis
    by (simp add: SpaceKey dialog_ok_def mirrors_update_at mirrors_qt_toggle)
qed

lemma torrent_user_input [simp]: "torrent (user_input d c) = torrent d"
  by (cases c) (simp_all add: update_checkboxes_def)

lemma count_selected_dialog:
  assumes "dialog_ok d"
  shows "count_selected (tree d) (file_items d) (0, 0) =
           (length (checked_files (file_tree (download_info (torrent d))) (tree d)),
            sum_list (map file_length (checked_files (file_tree (download_info (torrent d))) (tree d))))"
proof -
  have at: "item_at (tree d) [] = Some (tree d)" by simp
  from assms have m: "mirrors (file_tree (download_info (torrent d))) (tree d)"
    and f: "file_items d = snd (traverse_file_tree [] (suggested_name (download_info (torrent d)))
               (file_tree (download_info (torrent d))))"
    by (simp_all add: dialog_ok_def)
  show ?thesis
    using count_selected_traverse(1)[OF at m, of "suggested_name (download_info (torrent d))" 0 0]
    by (simp add: f)
qed

lemma update_selection_label_result:
  assumes "dialog_ok d"
  shows "selection_label (update_selection_label d) =
           label_for (checked_files (file_tree (download_info (torrent d))) (tree d))"
    and "ok_enabled (update_selection_label d) =
           (checked_files (file_tree (download_info (torrent d))) (tree d) \<noteq> [])"
  by (simp_all add: update_selection_label_def count_selected_dialog[OF assms] label_for_def)


lemma update_checkboxes_column0:
  "update_checkboxes d p 0 =
     update_selection_label
       (d\<lparr>tree := walk_up (update_at (\<lambda>it. set_check_state_to_tree it (check it)) (tree d) p) p\<rparr>)"
  by (simp add: update_checkboxes_def)

lemma dialog_ok_before_label:
  "dialog_ok d \<Longrightarrow>
   dialog_ok (d\<lparr>tree := walk_up (update_at (\<lambda>it. set_check_state_to_tree it (check it)) (tree d) p) p\<rparr>)"
  by (simp add: dialog_ok_def mirrors_walk_up mirrors_update_at mirrors_set_check)

lemma update_checkboxes_result:
  assumes "dialog_ok d"
  shows "selection_label (update_checkboxes d p 0) =
           label_for (checked_files (file_tree (download_info (torrent d))) (tree (update_checkboxes d p 0)))"
    and "ok_enabled (update_checkboxes d p 0) =
           (checked_files (file_tree (download_info (torrent d))) (tree (update_checkboxes d p 0)) \<noteq> [])"
  using update_selection_label_result[OF dialog_ok_before_label[OF assms, of p]]
  by (simp_all add: update_checkboxes_column0)

lemma dialog_ok_toggled:
  "dialog_ok d \<Longrightarrow> dialog_ok (d\<lparr>tree := update_at qt_toggle (tree d) item\<rparr>)"
  by (simp add: dialog_ok_def mirrors_update_at mirrors_qt_toggle)

lemma user_input_result:
  assumes "dialog_ok d" and "runs_slot c"
  shows "selection_label (user_input d c) =
           label_for (checked_files (file_tree (download_info (torrent d))) (tree (user_input d c)))"
    and "ok_enabled (user_input d c) =
           (checked_files (file_tree (download_info (torrent d))) (tree (user_input d c)) \<noteq> [])"
proof -
  show "selection_label (user_input d c) =
           label_for (checked_files (file_tree (download_info (torrent d))) (tree (user_input d c)))"
  proof (cases c)
    case (CheckboxClick item)
    show ?thesis
      using update_checkboxes_result(1)[OF dialog_ok_toggled[OF assms(1), of item], of item]
      by (simp add: CheckboxClick)
  next
    case (RowClick item column)
    with assms(2) have "column = 0" by simp
    then show ?thesis
      using update_checkboxes_result(1)[OF assms(1), of item] by (simp add: RowClick)
  next
    case (SpaceKey item)
    with assms(2) show ?thesis by simp
  qed
  show "ok_enabled (user_input d c) =
           (checked_files (file_tree (download_info (torrent d))) (tree (user_input d c)) \<noteq> [])"
  proof (cases c)
    case (CheckboxClick item)
    show ?thesis
      using update_checkboxes_result(2)[OF dialog_ok_toggled[OF assms(1), of item], of item]
      by (simp add: CheckboxClick)
  next
    case (RowClick item column)
    with assms(2) have "column = 0" by simp
    then show ?thesis
      using update_checkboxes_result(2)[OF assms(1), of item] by (simp add: RowClick)
  next
    case (SpaceKey item)
    with assms(2) show ?thesis by simp
  qed
qed

lemma user_input_other_column: "is_click c \<Longrightarrow> \<not> runs_slot c \<Longrightarrow> user_input d c = d"
  by (cases c) (simp_all add: update_checkboxes_def)

lemma torrent_clicks [simp]: "torrent (foldl user_input d cs) = torrent d"
  by (induction cs arbitrary: d) simp_all

lemma clicks_establish:
  assumes step: "\<And>d c. dialog_ok d \<Longrightarrow> runs_slot c \<Longrightarrow> P (user_input d c)"
  shows "dialog_ok d \<Longrightarrow> list_all is_click cs \<Longrightarrow> P d \<or> list_ex runs_slot cs \<Longrightarrow>
         P (foldl user_input d cs)"
proof (induction cs arbitrary: d)
  case Nil
  then show ?case by simp
next
  case (Cons c cs)
  have ok: "dialog_ok (user_input d c)"
    using Cons.prems(1) by (rule dialog_ok_user_input)
  from Cons.prems(2) have click: "is_click c" and clicks: "list_all is_click cs" by simp_all
  show ?case
  proof (cases "runs_slot c")
    case True
    from step[OF Cons.prems(1) True] Cons.IH[OF ok clicks] show ?thesis by simp
  next
    case False
    with click have same: "user_input d c = d" by (rule user_input_other_column)
    from Cons.prems(3) False have "P d \<or> list_ex runs_slot cs" by simp
    with Cons.IH[OF Cons.prems(1) clicks] same show ?thesis by simp
  qed
qed

text \<open>
  The mouse path keeps the label and the Ok button in step with the tree: after mouse
  clicks only, at least one of them in column 0, the label reports exactly the files whose
  leaf item is \<open>Checked\<close>, and the Ok button is enabled exactly when there is one.
\<close>

lemma clicks_report_selection:
  assumes "list_all is_click clicks" and "list_ex runs_slot clicks"
  shows "selection_label (foldl user_input (init dir ti) clicks) =
           label_for (checked_files (file_tree (download_info ti))
                        (tree (foldl user_input (init dir ti) clicks)))"
proof -
  let ?P = "\<lambda>d. selection_label d = label_for (checked_files (file_tree (download_info (torrent d))) (tree d))"
  have "?P (foldl user_input (init dir ti) clicks)"
  proof (rule clicks_establish[where P = ?P])
    fix d c assume "dialog_ok d" "runs_slot c"
    then show "?P (user_input d c)" using user_input_result(1) by simp
  next
    show "dialog_ok (init dir ti)" by (rule dialog_ok_init)
  next
    show "list_all is_click clicks" by (rule assms(1))
  next
    from assms(2) show "?P (init dir ti) \<or> list_ex runs_slot clicks" by simp
  qed
  moreover have "torrent (init dir ti) = ti" by (simp add: init_def case_prod_beta)
  ultimately show ?thesis by simp
qed

lemma clicks_enable_ok_iff_selected:
  assumes "list_all is_click clicks"
    and "checked_files (file_tree (download_info ti)) (tree (init dir ti)) \<noteq> []
           \<or> list_ex runs_slot clicks"
  shows "ok_enabled (foldl user_input (init dir ti) clicks) =
           (checked_files (file_tree (download_info ti))
              (tree (foldl user_input (init dir ti) clicks)) \<noteq> [])"
proof -
  let ?P = "\<lambda>d. ok_enabled d = (checked_files (file_tree (download_info (torrent d))) (tree d) \<noteq> [])"
  have ti: "torrent (init dir ti) = ti" by (simp add: init_def case_prod_beta)
  have "?P (foldl user_input (init dir ti) clicks)"
  proof (rule clicks_establish[where P = ?P])
    fix d c assume "dialog_ok d" "runs_slot c"
    then show "?P (user_input d c)" using user_input_result(2) by simp
  next
    show "dialog_ok (init dir ti)" by (rule dialog_ok_init)
  next
    show "list_all is_click clicks" by (rule assms(1))
  next
    have "ok_enabled (init dir ti)" by (simp add: init_def case_prod_beta)
    with assms(2) ti show "?P (init dir ti) \<or> list_ex runs_slot clicks" by auto
  qed
  with ti show ?thesis by simp
qed

lemma fileless_torrent_opens_enabled:
  "file_tree (download_info ti) = Directory [] \<Longrightarrow>
   ok_enabled (init dir ti) \<and> checked_files (file_tree (download_info ti)) (tree (init dir ti)) = []"
  by (simp add: init_def)

text \<open>
  Claim C4. After any sequence of toggles the label should report the number of file
  leaves that are \<open>Checked\<close> and the sum of their lengths. The source recounts in
  \<open>_update_selection_label\<close>, which only the slot of \<open>itemClicked\<close> calls; a toggle with the
  space key changes a check state and runs no slot. Here the three files of the example
  are unchecked one by one from the keyboard: no file leaf is \<open>Checked\<close>, a recount would
  give \<open>'Nothing to download'\<close>, and the label still reads 3 files of 350 bytes.
\<close>

theorem keyboard_toggles_leave_label_stale:
  "checked_files example_tree
     (tree (foldl user_input (init ''/home'' example_torrent)
              [SpaceKey [0, 0], SpaceKey [0, 1], SpaceKey [1, 0]])) = []
   \<and> label_for (checked_files example_tree
        (tree (foldl user_input (init ''/home'' example_torrent)
                 [SpaceKey [0, 0], SpaceKey [0, 1], SpaceKey [1, 0]]))) = NothingToDownload
   \<and> selection_label (foldl user_input (init ''/home'' example_torrent)
        [SpaceKey [0, 0], SpaceKey [0, 1], SpaceKey [1, 0]]) = SelectedFiles 3 350"
  by code_simp

text \<open>
  Claim C7. With no file leaf \<open>Checked\<close> the Ok button should be disabled. The source
  disables it in \<open>_update_selection_label\<close>, which only the slot of \<open>itemClicked\<close> calls.
  After the three files of the example have been unchecked with the space key, no file
  leaf is \<open>Checked\<close>, yet Ok is still enabled, and a click on it submits the torrent with an
  empty whitelist.
\<close>

theorem keyboard_toggles_leave_ok_enabled:
  "checked_files example_tree
     (tree (foldl user_input (init ''/home'' example_torrent)
              [SpaceKey [0, 0], SpaceKey [0, 1], SpaceKey [1, 0]])) = []
   \<and> ok_enabled (foldl user_input (init ''/home'' example_torrent)
        [SpaceKey [0, 0], SpaceKey [0, 1], SpaceKey [1, 0]])
   \<and> ok_clicked ''/home'' (foldl user_input (init ''/home'' example_torrent)
        [SpaceKey [0, 0], SpaceKey [0, 1], SpaceKey [1, 0]])
       = Some (submit_torrent ''/home'' (foldl user_input (init ''/home'' example_torrent)
                 [SpaceKey [0, 0], SpaceKey [0, 1], SpaceKey [1, 0]]))
   \<and> selection (download_info (snd (submit_torrent ''/home''
         (foldl user_input (init ''/home'' example_torrent)
            [SpaceKey [0, 0], SpaceKey [0, 1], SpaceKey [1, 0]]))))
       = Some ([], ''whitelist'')"
  by code_simp

text \<open>
  The three-file tree with everything unchecked at the top, then \<open>y.txt\<close> and \<open>z.txt\<close>
  checked: directory \<open>a\<close> is partial, \<open>b\<close> is checked, the top is partial, and two files of
  250 bytes are selected.
\<close>

lemma example_scenario:
  "tree (foldl user_input (init ''/home'' example_torrent)
           [CheckboxClick [], CheckboxClick [0, 1], CheckboxClick [1, 0]]) =
     TreeItem PartiallyChecked ''t''
       [TreeItem PartiallyChecked ''a'' [TreeItem Unchecked ''x.txt'' [], TreeItem Checked ''y.txt'' []],
        TreeItem Checked ''b'' [TreeItem Checked ''z.txt'' []]]"
  "selection_label (foldl user_input (init ''/home'' example_torrent)
           [CheckboxClick [], CheckboxClick [0, 1], CheckboxClick [1, 0]]) = SelectedFiles 2 250"
  by code_simp+

subsection \<open>Single-file torrents\<close>

lemma torrent_init [simp]: "torrent (init dir ti) = ti"
  by (simp add: init_def case_prod_beta)

lemma path_edit_init [simp]: "path_edit (init dir ti) = dir"
  by (simp add: init_def case_prod_beta)

lemma check_traverse_root: "check (fst (traverse_file_tree p name ft)) = Checked"
  by (cases ft) (simp_all add: case_prod_beta)

text \<open>
  Claim C9 as stated fails: for a torrent in single-file mode the dialog builds the item
  tree all the same (one checked file item, recorded in \<open>_file_items\<close>), and a click on its
  checkbox unchecks it, after which Ok is disabled and nothing can be submitted.
\<close>

theorem single_file_counterexample:
  "single_file_mode (download_info single_file_torrent)
   \<and> tree (init ''/home'' single_file_torrent) = TreeItem Checked ''f.iso'' []
   \<and> file_items (init ''/home'' single_file_torrent) = [(\<lparr>file_path = [], file_length = 700\<rparr>, [])]
   \<and> tree (user_input (init ''/home'' single_file_torrent) (CheckboxClick []))
       = TreeItem Unchecked ''f.iso'' []
   \<and> ok_clicked ''/home'' (user_input (init ''/home'' single_file_torrent) (CheckboxClick [])) = None"
  by code_simp

text \<open>
  Claim C9, amended. For a torrent in single-file mode the item tree is built with a
  checked top item like for any torrent; whatever was clicked, \<open>submit_torrent\<close> skips the
  whitelisting step: \<open>select_files\<close> is not called, and the torrent handed to the engine is
  the one the dialog was opened with, with only its download directory set.
\<close>

theorem single_file_submit_skips_whitelist:
  assumes "single_file_mode (download_info ti)"
  shows "check (tree (init dir ti)) = Checked
       \<and> snd (submit_torrent dir' (foldl user_input (init dir ti) clicks))
           = ti\<lparr>download_dir := Some dir'\<rparr>
       \<and> selection (download_info (snd (submit_torrent dir' (foldl user_input (init dir ti) clicks))))
           = selection (download_info ti)"
proof -
  have "check (tree (init dir ti)) = Checked"
    by (simp add: init_def case_prod_beta check_traverse_root)
  moreover have "snd (submit_torrent dir' (foldl user_input (init dir ti) clicks))
           = ti\<lparr>download_dir := Some dir'\<rparr>"
    using assms by (simp add: submit_torrent_def Let_def)
  ultimately show ?thesis by simp
qed

theorem single_file_submit_skips_whitelist_witness:
  "check (tree (init ''/home'' single_file_torrent)) = Checked
   \<and> snd (submit_torrent ''/data'' (foldl user_input (init ''/home'' single_file_torrent) []))
       = single_file_torrent\<lparr>download_dir := Some ''/data''\<rparr>
   \<and> selection (download_info (snd (submit_torrent ''/data''
         (foldl user_input (init ''/home'' single_file_torrent) [])))) = None"
proof -
  have h: "single_file_mode (download_info single_file_torrent)"
    by (simp add: single_file_torrent_def)
  have s: "selection (download_info single_file_torrent) = None"
    by (simp add: single_file_torrent_def)
  from single_file_submit_skips_whitelist[OF h, of "''/home''" "''/data''" "[]"] s
  show ?thesis by simp
qed

lemma multi_file_submit_whitelists:
  "\<not> single_file_mode (download_info (torrent d)) \<Longrightarrow>
   selection (download_info (snd (submit_torrent dir d))) =
     Some (map (\<lambda>(node, item). file_path node)
            (filter (\<lambda>(node, item). check_at (tree d) item = Some Checked) (file_items d)),
           ''whitelist'')"
  by (simp add: submit_torrent_def Let_def select_files_def)

subsection \<open>The shared download directory\<close>

lemma gui_step_keeps_dir:
  "\<not> sets_directory e \<Longrightarrow> selected_download_dir (gui_step g e) = selected_download_dir g"
proof (cases e)
  case (OpenDialog ti)
  then show ?thesis by simp
next
  case (BrowseDir i new_download_dir)
  assume "\<not> sets_directory e"
  with BrowseDir have "new_download_dir = []" by simp
  then show ?thesis by (simp add: BrowseDir browse_def)
next
  case (TreeInput i c)
  then show ?thesis by simp
next
  case (OkClick i)
  then show ?thesis by (simp split: option.splits prod.splits)
qed

lemma gui_run_keeps_dir:
  "list_all (\<lambda>e. \<not> sets_directory e) es \<Longrightarrow>
   selected_download_dir (foldl gui_step g es) = selected_download_dir g"
  by (induction es arbitrary: g) (simp_all add: gui_step_keeps_dir)

lemma gui_step_browse:
  "i < length (dialogs g) \<Longrightarrow> new_download_dir \<noteq> [] \<Longrightarrow>
   selected_download_dir (gui_step g (BrowseDir i new_download_dir)) = new_download_dir
   \<and> path_edit (dialogs (gui_step g (BrowseDir i new_download_dir)) ! i) = new_download_dir"
  by (simp add: browse_def)

text \<open>
  Claim C10. After a browse in any existing dialog that returned a directory, and after
  any further events that do not choose another directory (clicks, submissions, new
  dialogs, cancelled browses), a dialog created for any torrent shows the browsed
  directory in its download-directory field.
\<close>

theorem shared_download_dir:
  assumes "i < length (dialogs g)"
    and "new_download_dir \<noteq> []"
    and "list_all (\<lambda>e. \<not> sets_directory e) es"
  shows "path_edit (last (dialogs (gui_step
            (foldl gui_step (gui_step g (BrowseDir i new_download_dir)) es) (OpenDialog ti))))
         = new_download_dir"
proof -
  let ?g = "foldl gui_step (gui_step g (BrowseDir i new_download_dir)) es"
  have "selected_download_dir ?g = new_download_dir"
    using gui_run_keeps_dir[OF assms(3)] gui_step_browse[OF assms(1,2)] by simp
  then show ?thesis by simp
qed

theorem shared_download_dir_witness:
  "path_edit (last (dialogs (gui_step
      (foldl gui_step
         (gui_step (gui_step (start_gui ''/cwd'') (OpenDialog example_torrent)) (BrowseDir 0 ''/data''))
         [TreeInput 0 (CheckboxClick [0]), BrowseDir 0 [], OkClick 0])
      (OpenDialog single_file_torrent)))) = ''/data''"
proof -
  have a: "0 < length (dialogs (gui_step (start_gui ''/cwd'') (OpenDialog example_torrent)))"
    by (simp add: start_gui_def)
  have b: "''/data'' \<noteq> []" by simp
  have c: "list_all (\<lambda>e. \<not> sets_directory e) [TreeInput 0 (CheckboxClick [0]), BrowseDir 0 [], OkClick 0]"
    by simp
  from shared_download_dir[OF a b c] show ?thesis .
qed

lemma first_dialog_shows_cwd:
  "path_edit (last (dialogs (gui_step (start_gui cwd) (OpenDialog ti)))) = cwd"
  by (simp add: start_gui_def)

section \<open>Properties of the torrent list\<close>

lemma count_items_upper_eq:
  "count_items_upper xs name k =
     k + length (takeWhile (\<lambda>it. state_name (widget_state it) \<le> name) xs)"
  by (induction xs arbitrary: k) (simp_all add: not_less)

lemma insertItem_takeWhile:
  "insertItem xs (length (takeWhile P xs)) item = takeWhile P xs @ item # dropWhile P xs"
  by (simp add: insertItem_def takeWhile_eq_take[symmetric] dropWhile_eq_drop[symmetric])

lemma sorted_insert_takeWhile:
  fixes f :: "'a \<Rightarrow> 'b::linorder"
  shows "sorted (map f xs) \<Longrightarrow> f x = v \<Longrightarrow>
   sorted (map f (takeWhile (\<lambda>y. f y \<le> v) xs @ x # dropWhile (\<lambda>y. f y \<le> v) xs))"
proof (induction xs)
  case Nil
  then show ?case by simp
next
  case (Cons y ys)
  define l where "l = takeWhile (\<lambda>y. f y \<le> v) ys @ x # dropWhile (\<lambda>y. f y \<le> v) ys"
  from Cons have IH: "sorted (map f l)" by (simp add: l_def)
  show ?case
  proof (cases "f y \<le> v")
    case True
    have key: "\<forall>z \<in> set l. f y \<le> f z"
    proof
      fix z assume "z \<in> set l"
      then have "z = x \<or> z \<in> set ys"
        using set_takeWhileD[of z _ ys] set_dropWhileD[of z _ ys] by (auto simp: l_def)
      with Cons.prems True show "f y \<le> f z" by auto
    qed
    have "sorted (map f (y # l))" by (simp add: key IH)
    then show ?thesis using True by (simp add: l_def)
  next
    case False
    with Cons.prems show ?thesis by auto
  qed
qed

lemma add_list:
  "list_widget (add_torrent_item w state) =
     takeWhile (\<lambda>it. state_name (widget_state it) \<le> state_name state) (list_widget w)
     @ \<lparr>item_ref = next_ref w, item_data = info_hash state, widget_state = state\<rparr>
     # dropWhile (\<lambda>it. state_name (widget_state it) \<le> state_name state) (list_widget w)"
  by (simp add: add_torrent_item_def Let_def count_items_upper_eq insertItem_takeWhile)

lemma set_add_list:
  "set (list_widget (add_torrent_item w state)) =
     insert \<lparr>item_ref = next_ref w, item_data = info_hash state, widget_state = state\<rparr>
       (set (list_widget w))"
proof -
  have "set (takeWhile (\<lambda>it. state_name (widget_state it) \<le> state_name state) (list_widget w))
        \<union> set (dropWhile (\<lambda>it. state_name (widget_state it) \<le> state_name state) (list_widget w))
        = set (list_widget w)"
    by (metis set_append takeWhile_dropWhile_id)
  then show ?thesis by (auto simp: add_list)
qed

lemma row_bounds: "- 1 \<le> row xs r \<and> row xs r < int (length xs)"
  by (induction xs) (auto simp: Let_def)

lemma takeItem_row_Cons:
  "takeItem (it # rest) (row (it # rest) r) =
     (if item_ref it = r then rest else it # takeItem rest (row rest r))"
proof (cases "item_ref it = r")
  case True
  then show ?thesis by (simp add: takeItem_def)
next
  case False
  show ?thesis
  proof (cases "row rest r < 0")
    case True
    with False show ?thesis by (simp add: takeItem_def Let_def)
  next
    case nonneg: False
    then have n: "nat (row rest r + 1) = Suc (nat (row rest r))" by simp
    from nonneg row_bounds[of rest r] False show ?thesis
      by (simp add: takeItem_def Let_def n)
  qed
qed

lemma takeItem_row_filter:
  "distinct (map item_ref xs) \<Longrightarrow>
   takeItem xs (row xs r) = filter (\<lambda>it. item_ref it \<noteq> r) xs"
proof (induction xs)
  case Nil
  show ?case by (simp add: takeItem_def)
next
  case (Cons it rest)
  show ?case
  proof (cases "item_ref it = r")
    case True
    from Cons.prems True have notin: "r \<notin> item_ref ` set rest" by simp
    have "\<forall>x \<in> set rest. item_ref x \<noteq> r"
    proof
      fix x assume "x \<in> set rest"
      then have "item_ref x \<in> item_ref ` set rest" by simp
      with notin show "item_ref x \<noteq> r" by auto
    qed
    then have "filter (\<lambda>it. item_ref it \<noteq> r) rest = rest" by simp
    with True show ?thesis by (simp only: takeItem_row_Cons) simp
  next
    case False
    with Cons show ?thesis by (simp only: takeItem_row_Cons) simp
  qed
qed


lemma distinct_insert_middle:
  "distinct (map f (a @ b)) \<Longrightarrow> f x \<notin> f ` set (a @ b) \<Longrightarrow> distinct (map f (a @ x # b))"
  by auto

lemma registry_inv_add:
  assumes inv: "registry_inv w" and new: "torrent_to_item w (info_hash state) = None"
  shows "registry_inv (add_torrent_item w state)"
proof -
  let ?item = "\<lparr>item_ref = next_ref w, item_data = info_hash state, widget_state = state\<rparr>"
  let ?w = "add_torrent_item w state"
  have dict: "torrent_to_item ?w = (torrent_to_item w)(info_hash state \<mapsto> next_ref w)"
    and nxt: "next_ref ?w = Suc (next_ref w)"
    by (simp_all add: add_torrent_item_def Let_def)
  from inv have srt: "sorted (displayed_names w)"
    and dst: "distinct (map item_ref (list_widget w))"
    and old: "\<forall>it \<in> set (list_widget w).
          item_ref it < next_ref w \<and> torrent_to_item w (item_data it) = Some (item_ref it)"
    and bk: "\<forall>h r. torrent_to_item w h = Some r \<longrightarrow>
          (\<exists>it \<in> set (list_widget w). item_ref it = r \<and> item_data it = h)"
    by (simp_all add: registry_inv_def)
  have s1: "sorted (displayed_names ?w)"
    using sorted_insert_takeWhile[of "\<lambda>it. state_name (widget_state it)" "list_widget w" ?item "state_name state"] srt
    by (simp add: displayed_names_def add_list)
  have fresh: "next_ref w \<notin> item_ref ` set (list_widget w)"
    using old by auto
  have s2: "distinct (map item_ref (list_widget ?w))"
    unfolding add_list
  proof (rule distinct_insert_middle)
    show "distinct (map item_ref
            (takeWhile (\<lambda>it. state_name (widget_state it) \<le> state_name state) (list_widget w)
             @ dropWhile (\<lambda>it. state_name (widget_state it) \<le> state_name state) (list_widget w)))"
      using dst by simp
    show "item_ref ?item \<notin> item_ref `
            set (takeWhile (\<lambda>it. state_name (widget_state it) \<le> state_name state) (list_widget w)
                 @ dropWhile (\<lambda>it. state_name (widget_state it) \<le> state_name state) (list_widget w))"
      using fresh by simp
  qed
  have s3: "\<forall>it \<in> set (list_widget ?w).
          item_ref it < next_ref ?w \<and> torrent_to_item ?w (item_data it) = Some (item_ref it)"
  proof
    fix it assume "it \<in> set (list_widget ?w)"
    then have "it = ?item \<or> it \<in> set (list_widget w)" by (simp add: set_add_list)
    then show "item_ref it < next_ref ?w \<and> torrent_to_item ?w (item_data it) = Some (item_ref it)"
    proof
      assume "it = ?item"
      then show ?thesis by (simp add: dict nxt)
    next
      assume m: "it \<in> set (list_widget w)"
      with old have o: "item_ref it < next_ref w" "torrent_to_item w (item_data it) = Some (item_ref it)"
        by auto
      with new have "item_data it \<noteq> info_hash state" by auto
      with o show ?thesis by (simp add: dict nxt)
    qed
  qed
  have s4: "\<forall>h r. torrent_to_item ?w h = Some r \<longrightarrow>
          (\<exists>it \<in> set (list_widget ?w). item_ref it = r \<and> item_data it = h)"
  proof (intro allI impI)
    fix h r assume hr: "torrent_to_item ?w h = Some r"
    show "\<exists>it \<in> set (list_widget ?w). item_ref it = r \<and> item_data it = h"
    proof (cases "h = info_hash state")
      case True
      with hr have "r = next_ref w" by (simp add: dict)
      with True show ?thesis by (simp add: set_add_list)
    next
      case False
      with hr have "torrent_to_item w h = Some r" by (simp add: dict)
      with bk obtain it where "it \<in> set (list_widget w)" "item_ref it = r" "item_data it = h"
        by blast
      then show ?thesis by (auto simp: set_add_list)
    qed
  qed
  from s1 s2 s3 s4 show ?thesis by (simp add: registry_inv_def)
qed


lemma set_widget_state_fields [simp]:
  "item_ref (set_widget_state r state it) = item_ref it"
  "item_data (set_widget_state r state it) = item_data it"
  by (simp_all add: set_widget_state_def)

lemma same_ref_same_item:
  "distinct (map item_ref xs) \<Longrightarrow> a \<in> set xs \<Longrightarrow> b \<in> set xs \<Longrightarrow> item_ref a = item_ref b \<Longrightarrow> a = b"
  by (simp add: distinct_map inj_on_def)

lemma registry_inv_update:
  assumes inv: "registry_inv w"
    and adm: "admissible w (UpdateTorrent state)"
    and res: "update_torrent_item w state = Inr w'"
  shows "registry_inv w'"
proof -
  from res obtain r where r: "torrent_to_item w (info_hash state) = Some r"
    and w': "w' = w\<lparr>list_widget := map (set_widget_state r state) (list_widget w)\<rparr>"
    by (auto simp: update_torrent_item_def split: option.splits if_splits)
  from inv have srt: "sorted (displayed_names w)"
    and dst: "distinct (map item_ref (list_widget w))"
    and old: "\<forall>it \<in> set (list_widget w).
          item_ref it < next_ref w \<and> torrent_to_item w (item_data it) = Some (item_ref it)"
    and bk: "\<forall>h r. torrent_to_item w h = Some r \<longrightarrow>
          (\<exists>it \<in> set (list_widget w). item_ref it = r \<and> item_data it = h)"
    by (simp_all add: registry_inv_def)
  from bk r obtain it0 where it0: "it0 \<in> set (list_widget w)" "item_ref it0 = r"
      "item_data it0 = info_hash state"
    by blast
  have names: "\<forall>it \<in> set (list_widget w).
      state_name (widget_state (set_widget_state r state it)) = state_name (widget_state it)"
  proof
    fix it assume m: "it \<in> set (list_widget w)"
    show "state_name (widget_state (set_widget_state r state it)) = state_name (widget_state it)"
    proof (cases "item_ref it = r")
      case True
      with same_ref_same_item[OF dst m it0(1)] it0 have "item_data it = info_hash state" by simp
      with adm m have "state_name (widget_state it) = state_name state"
        by (simp add: list_all_iff)
      with True show ?thesis by (simp add: set_widget_state_def)
    next
      case False
      then show ?thesis by (simp add: set_widget_state_def)
    qed
  qed
  then have n: "displayed_names w' = displayed_names w"
    by (simp add: displayed_names_def w')
  have refs: "map item_ref (list_widget w') = map item_ref (list_widget w)"
    by (simp add: w')
  have s3: "\<forall>it \<in> set (list_widget w').
          item_ref it < next_ref w' \<and> torrent_to_item w' (item_data it) = Some (item_ref it)"
    using old by (simp add: w')
  have s4: "\<forall>h r. torrent_to_item w' h = Some r \<longrightarrow>
          (\<exists>it \<in> set (list_widget w'). item_ref it = r \<and> item_data it = h)"
    using bk by (simp add: w')
  from srt dst s3 s4 n refs show ?thesis by (simp add: registry_inv_def)
qed

lemma registry_inv_remove:
  assumes inv: "registry_inv w" and res: "remove_torrent_item w h = Inr w'"
  shows "registry_inv w'"
proof -
  from inv have srt: "sorted (displayed_names w)"
    and dst: "distinct (map item_ref (list_widget w))"
    and old: "\<forall>it \<in> set (list_widget w).
          item_ref it < next_ref w \<and> torrent_to_item w (item_data it) = Some (item_ref it)"
    and bk: "\<forall>h r. torrent_to_item w h = Some r \<longrightarrow>
          (\<exists>it \<in> set (list_widget w). item_ref it = r \<and> item_data it = h)"
    by (simp_all add: registry_inv_def)
  from res obtain r where r: "torrent_to_item w h = Some r"
    and w': "w' = w\<lparr>list_widget := filter (\<lambda>it. item_ref it \<noteq> r) (list_widget w),
                     torrent_to_item := (torrent_to_item w)(h := None)\<rparr>"
    by (auto simp: remove_torrent_item_def takeItem_row_filter[OF dst] split: option.splits)
  from bk r obtain it0 where it0: "it0 \<in> set (list_widget w)" "item_ref it0 = r" "item_data it0 = h"
    by blast
  have s1: "sorted (displayed_names w')"
    using srt by (simp add: displayed_names_def w' sorted_filter)
  have s2: "distinct (map item_ref (list_widget w'))"
    using dst by (simp add: w' distinct_map_filter)
  have s3: "\<forall>it \<in> set (list_widget w').
          item_ref it < next_ref w' \<and> torrent_to_item w' (item_data it) = Some (item_ref it)"
  proof
    fix it assume "it \<in> set (list_widget w')"
    then have m: "it \<in> set (list_widget w)" and nr: "item_ref it \<noteq> r" by (simp_all add: w')
    from old m have o: "item_ref it < next_ref w" "torrent_to_item w (item_data it) = Some (item_ref it)"
      by auto
    from o(2) r nr have "item_data it \<noteq> h" by auto
    with o show "item_ref it < next_ref w' \<and> torrent_to_item w' (item_data it) = Some (item_ref it)"
      by (simp add: w')
  qed
  have s4: "\<forall>h' r'. torrent_to_item w' h' = Some r' \<longrightarrow>
          (\<exists>it \<in> set (list_widget w'). item_ref it = r' \<and> item_data it = h')"
  proof (intro allI impI)
    fix h' r' assume a: "torrent_to_item w' h' = Some r'"
    then have ne: "h' \<noteq> h" and d: "torrent_to_item w h' = Some r'"
      by (auto simp: w' split: if_splits)
    from bk d obtain it where it: "it \<in> set (list_widget w)" "item_ref it = r'" "item_data it = h'"
      by blast
    have "r' \<noteq> r"
    proof
      assume "r' = r"
      with same_ref_same_item[OF dst it(1) it0(1)] it it0 have "h' = h" by simp
      with ne show False by simp
    qed
    with it show "\<exists>it \<in> set (list_widget w'). item_ref it = r' \<and> item_data it = h'"
      by (auto simp: w')
  qed
  from s1 s2 s3 s4 show ?thesis by (simp add: registry_inv_def)
qed

lemma registry_inv_new: "registry_inv new_main_window"
  by (simp add: registry_inv_def new_main_window_def displayed_names_def)

lemma registry_inv_step:
  "registry_inv w \<Longrightarrow> admissible w op \<Longrightarrow> registry_step w op = Inr w' \<Longrightarrow> registry_inv w'"
proof (cases op)
  case (AddTorrent state)
  assume "registry_inv w" "admissible w op" "registry_step w op = Inr w'"
  with AddTorrent registry_inv_add[of w state] show ?thesis by auto
next
  case (UpdateTorrent state)
  assume "registry_inv w" "admissible w op" "registry_step w op = Inr w'"
  with UpdateTorrent registry_inv_update[of w state w'] show ?thesis by simp
next
  case (RemoveTorrent h)
  assume "registry_inv w" "admissible w op" "registry_step w op = Inr w'"
  with RemoveTorrent registry_inv_remove[of w h w'] show ?thesis by simp
qed

lemma registry_inv_run:
  "registry_inv w \<Longrightarrow> admissible_run w ops \<Longrightarrow> registry_run w ops = Inr w' \<Longrightarrow> registry_inv w'"
proof (induction ops arbitrary: w)
  case Nil
  then show ?case by simp
next
  case (Cons op ops)
  from Cons.prems(3) obtain w1 where step: "registry_step w op = Inr w1"
    and rest: "registry_run w1 ops = Inr w'"
    by (auto split: sum.splits)
  from Cons.prems(2) step have adm: "admissible w op" and adm': "admissible_run w1 ops"
    by simp_all
  from registry_inv_step[OF Cons.prems(1) adm step] have "registry_inv w1" .
  from Cons.IH[OF this adm' rest] show ?case .
qed

lemma registry_inv_ids: "registry_inv w \<Longrightarrow> dom (torrent_to_item w) = displayed_ids w"
proof
  assume inv: "registry_inv w"
  show "dom (torrent_to_item w) \<subseteq> displayed_ids w"
  proof
    fix h assume "h \<in> dom (torrent_to_item w)"
    then obtain r where "torrent_to_item w h = Some r" by auto
    with inv obtain it where "it \<in> set (list_widget w)" "item_data it = h"
      unfolding registry_inv_def by blast
    then show "h \<in> displayed_ids w" by (auto simp: displayed_ids_def)
  qed
next
  assume inv: "registry_inv w"
  show "displayed_ids w \<subseteq> dom (torrent_to_item w)"
  proof
    fix h assume "h \<in> displayed_ids w"
    then obtain it where "it \<in> set (list_widget w)" "item_data it = h"
      by (auto simp: displayed_ids_def)
    with inv have "torrent_to_item w h = Some (item_ref it)"
      unfolding registry_inv_def by blast
    then show "h \<in> dom (torrent_to_item w)" by auto
  qed
qed

lemma admissible_run_take: "admissible_run w ops \<Longrightarrow> admissible_run w (take n ops)"
proof (induction ops arbitrary: w n)
  case Nil
  then show ?case by simp
next
  case (Cons op ops)
  show ?case
  proof (cases n)
    case 0
    then show ?thesis by simp
  next
    case (Suc m)
    with Cons show ?thesis by (auto split: sum.splits)
  qed
qed

text \<open>
  Claim C2. Take any sequence of added, changed and removed events as the engine sends
  them: every added torrent is new to the window, and every changed snapshot carries the
  name of the entry it replaces (a torrent's name is fixed when it is created). After each operation of the sequence (after the first \<open>n\<close>, for every
  \<open>n\<close>, as long as no slot has raised) the names in the list are ascending and the keys of
  \<open>_torrent_to_item\<close> are exactly the ids of the items in the list. A slot that raises
  (\<open>KeyError\<close> for an unknown id) raises before it changes anything.
\<close>

theorem registry_sorted_and_ids:
  assumes "admissible_run new_main_window ops"
    and "registry_run new_main_window (take n ops) = Inr w"
  shows "sorted (displayed_names w) \<and> dom (torrent_to_item w) = displayed_ids w"
proof -
  from registry_inv_run[OF registry_inv_new admissible_run_take[OF assms(1)] assms(2)]
  have inv: "registry_inv w" .
  then have "sorted (displayed_names w)" by (simp add: registry_inv_def)
  with registry_inv_ids[OF inv] show ?thesis by simp
qed

theorem registry_sorted_and_ids_witness:
  "displayed_names (projr (registry_run new_main_window
       (take 3 [AddTorrent state_b, AddTorrent state_a, UpdateTorrent state_a_paused, RemoveTorrent ''h2'']))) = [''a'', ''b'']
   \<and> sorted (displayed_names (projr (registry_run new_main_window
       (take 3 [AddTorrent state_b, AddTorrent state_a, UpdateTorrent state_a_paused, RemoveTorrent ''h2'']))))
   \<and> dom (torrent_to_item (projr (registry_run new_main_window
       (take 3 [AddTorrent state_b, AddTorrent state_a, UpdateTorrent state_a_paused, RemoveTorrent ''h2'']))))
     = displayed_ids (projr (registry_run new_main_window
       (take 3 [AddTorrent state_b, AddTorrent state_a, UpdateTorrent state_a_paused, RemoveTorrent ''h2''])))"
proof -
  let ?ops = "[AddTorrent state_b, AddTorrent state_a, UpdateTorrent state_a_paused, RemoveTorrent ''h2'']"
  have a: "admissible_run new_main_window ?ops" by code_simp
  have "\<not> isl (registry_run new_main_window (take 3 ?ops))" by code_simp
  then have b: "registry_run new_main_window (take 3 ?ops)
                  = Inr (projr (registry_run new_main_window (take 3 ?ops)))"
    by (cases "registry_run new_main_window (take 3 ?ops)") simp_all
  have n: "displayed_names (projr (registry_run new_main_window (take 3 ?ops))) = [''a'', ''b'']"
    by code_simp
  from registry_sorted_and_ids[OF a b] n show ?thesis by simp
qed

lemma registry_after_removal:
  "displayed_names (projr (registry_run new_main_window
       [AddTorrent state_b, AddTorrent state_a, UpdateTorrent state_a_paused, RemoveTorrent ''h2''])) = [''a'']"
  by code_simp

section \<open>Properties of control actions\<close>

lemma caller_sees_nothing: "fst (control_action_triggered action selected cm) = None"
  by (induction selected arbitrary: cm) (simp_all add: case_prod_beta)

lemma invoke_passes_other_errors:
  "action hash cm = (Some e, cm', evs) \<Longrightarrow> e \<noteq> ValueError \<Longrightarrow>
   invoke_control_action action hash cm = (Some e, cm', evs)"
  by (cases e) (simp_all add: invoke_control_action_def)

text \<open>
  Claim C5. A pause, resume or remove command for an id the engine does not know fails
  inside the engine with \<open>ValueError\<close>; \<open>_invoke_control_action\<close> swallows it, so the
  coroutine ends normally, the engine is as before and no event has been emitted. The
  caller, \<open>_control_action_triggered\<close>, sees nothing raised either.
\<close>

theorem unknown_id_suppressed:
  assumes "torrents cm hash = None"
  shows "invoke_control_action (control_command on_known) hash cm = (None, cm, [])
       \<and> control_action_triggered (control_command on_known) [hash] cm = (None, cm, [])"
proof -
  have c: "control_command on_known hash cm = (Some ValueError, cm, [])"
    using assms by (simp add: control_command_def)
  then have i: "invoke_control_action (control_command on_known) hash cm = (None, cm, [])"
    by (simp add: invoke_control_action_def)
  then show ?thesis by simp
qed

theorem unknown_id_suppressed_witness:
  "invoke_control_action (control_command remove_known) ''zz'' example_engine = (None, example_engine, [])
   \<and> control_action_triggered (control_command remove_known) [''zz''] example_engine
       = (None, example_engine, [])"
proof -
  have h: "torrents example_engine ''zz'' = None" by (simp add: example_engine_def)
  from unknown_id_suppressed[OF h] show ?thesis .
qed

lemma known_id_emits:
  "snd (snd (invoke_control_action (control_command remove_known) ''h1'' example_engine))
     = [TorrentRemoved ''h1'']"
  by (simp add: invoke_control_action_def control_command_def remove_known_def example_engine_def)

section \<open>Properties of the background thread\<close>

lemma stop_sets_stopping: "stopping (snd (stop wd t))"
  by (simp add: stop_def Let_def did_def run_finish_def save_state_def
        split: phase.splits option.splits)

lemma stop_when_stopping: "stopping t \<Longrightarrow> stop wd t = (None, t)"
  by (simp add: stop_def)

lemma stop_running_effects:
  "phase t = Running \<Longrightarrow> \<not> stopping t \<Longrightarrow>
   effects (snd (stop wd t)) =
     effects t @ [ControlStop, LoopStop, OpenStateFileWrite, ControlDump, LoopClose, ThreadJoin]"
  by (simp add: stop_def Let_def did_def run_finish_def save_state_def split: option.splits)

text \<open>
  Claim C6. Whatever the thread's state, a second \<open>stop()\<close> right after a first one raises
  nothing and changes nothing. For a running thread the two calls together add exactly one
  scheduling of \<open>control.stop()\<close>, one \<open>loop.stop()\<close>, one save of the state, one closing
  of the loop and one join.
\<close>

theorem stop_idempotent:
  "stop wd (snd (stop wd t)) = (None, snd (stop wd t))
   \<and> (phase t = Running \<and> \<not> stopping t \<longrightarrow>
        effects (snd (stop wd (snd (stop wd t)))) =
          effects t @ [ControlStop, LoopStop, OpenStateFileWrite, ControlDump, LoopClose, ThreadJoin])"
proof -
  have twice: "stop wd (snd (stop wd t)) = (None, snd (stop wd t))"
    by (rule stop_when_stopping) (rule stop_sets_stopping)
  then show ?thesis using stop_running_effects[of t wd] by simp
qed

theorem stop_idempotent_witness:
  "effects (snd (stop cold_world (snd (stop cold_world (run_start cold_world new_thread))))) =
     [NewEventLoop, ControlStart, RunForever,
      ControlStop, LoopStop, OpenStateFileWrite, ControlDump, LoopClose, ThreadJoin]
   \<and> count_list (effects (snd (stop cold_world (snd (stop cold_world (run_start cold_world new_thread))))))
        ControlDump = 1
   \<and> count_list (effects (snd (stop cold_world (snd (stop cold_world (run_start cold_world new_thread))))))
        ThreadJoin = 1"
proof -
  have r: "phase (run_start cold_world new_thread) = Running \<and> \<not> stopping (run_start cold_world new_thread)"
    by code_simp
  have e: "effects (run_start cold_world new_thread) = [NewEventLoop, ControlStart, RunForever]"
    by code_simp
  from stop_idempotent[of cold_world "run_start cold_world new_thread"] r
  have "effects (snd (stop cold_world (snd (stop cold_world (run_start cold_world new_thread))))) =
          effects (run_start cold_world new_thread)
          @ [ControlStop, LoopStop, OpenStateFileWrite, ControlDump, LoopClose, ThreadJoin]"
    by blast
  then have E: "effects (snd (stop cold_world (snd (stop cold_world (run_start cold_world new_thread))))) =
     [NewEventLoop, ControlStart, RunForever,
      ControlStop, LoopStop, OpenStateFileWrite, ControlDump, LoopClose, ThreadJoin]"
    by (simp only: e append.simps)
  show ?thesis unfolding E by simp
qed

text \<open>
  Claim C8 as stated fails: with a state file whose loading raises, the exception leaves
  \<open>run\<close>; the loop is closed and \<open>run_forever\<close> is never entered, so startup of the
  background thread is aborted rather than continued as a cold start.
\<close>

theorem load_failure_counterexample:
  "phase (run_start corrupt_world new_thread) = Failed OtherError
   \<and> effects (run_start corrupt_world new_thread)
       = [NewEventLoop, ControlStart, OpenStateFileRead, ControlLoad, LoopClose]
   \<and> RunForever \<notin> set (effects (run_start corrupt_world new_thread))"
  by code_simp

text \<open>
  Claim C8, amended. When the engine has started, absence of the state file is not an
  error: nothing is opened or loaded and the thread enters its run phase. When the file
  exists and loading it raises, the exception is not caught: it ends \<open>run\<close> with the loop
  closed and the run phase never entered.
\<close>

theorem absent_state_file_cold_start:
  assumes "start_error wd = None"
  shows "(\<not> state_file_exists wd \<longrightarrow>
            phase (run_start wd new_thread) = Running
            \<and> effects (run_start wd new_thread) = [NewEventLoop, ControlStart, RunForever])
       \<and> (state_file_exists wd \<and> load_error wd = Some e \<longrightarrow>
            phase (run_start wd new_thread) = Failed e
            \<and> effects (run_start wd new_thread)
                = [NewEventLoop, ControlStart, OpenStateFileRead, ControlLoad, LoopClose])"
  using assms
  by (simp add: run_start_def load_state_def did_def new_thread_def Let_def)

theorem absent_state_file_cold_start_witness:
  "phase (run_start cold_world new_thread) = Running
   \<and> effects (run_start cold_world new_thread) = [NewEventLoop, ControlStart, RunForever]"
proof -
  have s: "start_error cold_world = None" by (simp add: cold_world_def)
  have f: "\<not> state_file_exists cold_world" by (simp add: cold_world_def)
  from absent_state_file_cold_start[OF s] f show ?thesis by simp
qed

end
